theory Spec2Isabelle
  imports Complex_Main "HOL-Library.Char_ord" "HOL-Library.List_Lexorder"
begin

section \<open>Data model\<close>

subsection \<open>Attribute payloads\<close>

text \<open>
  Device attributes are JSON data: a key-to-value map whose values are scalars or nested
  maps (spec, section 3). An object is kept as an association list in JavaScript's
  enumeration order (\<open>for ... in\<close>, \<open>Object.entries\<close>); a JavaScript object never holds
  a key twice, which is the predicate \<open>wf_json\<close> below. Arrays are not part of the data
  model. A number is a rational.
\<close>

datatype json = JNull | JBool bool | JNum rat | JStr string | JObj "(string \<times> json) list"

text \<open>JavaScript truthiness of a value (\<open>!obj\<close>, \<open>current &&\<close>, \<open>x || 'OFF'\<close>).\<close>

fun truthy :: "json \<Rightarrow> bool" where
  "truthy JNull = False"
| "truthy (JBool b) = b"
| "truthy (JNum n) = (n \<noteq> 0)"
| "truthy (JStr s) = (s \<noteq> [])"
| "truthy (JObj fs) = True"

text \<open>\<open>typeof v === 'object' && v !== null\<close>.\<close>

fun is_object :: "json \<Rightarrow> bool" where
  "is_object (JObj fs) = True"
| "is_object v = False"

fun wf_json :: "json \<Rightarrow> bool"
  and wf_fields :: "(string \<times> json) list \<Rightarrow> bool" where
  "wf_json (JObj fs) = (distinct (map fst fs) \<and> wf_fields fs)"
| "wf_json JNull = True"
| "wf_json (JBool b) = True"
| "wf_json (JNum n) = True"
| "wf_json (JStr s) = True"
| "wf_fields [] = True"
| "wf_fields ((k, v) # rest) = (wf_json v \<and> wf_fields rest)"

subsection \<open>Numbers as decimal strings\<close>

text \<open>\<open>String(n)\<close> for a non-negative integer \<open>n\<close>: its decimal digits.\<close>

definition digit_char :: "nat \<Rightarrow> char" where
  "digit_char d = ''0123456789'' ! d"

function show_nat :: "nat \<Rightarrow> string" where
  "show_nat n =
     (if n < 10 then [digit_char n]
      else show_nat (n div 10) @ [digit_char (n mod 10)])"
  by pat_completeness auto
termination
  by (relation "measure id") auto

declare show_nat.simps [simp del]

subsection \<open>Property access\<close>

text \<open>
  The own properties of a value: a map has its keys, a string has \<open>length\<close> and one
  single-character string per index, numbers and booleans have none.
\<close>

fun str_prop :: "string \<Rightarrow> string \<Rightarrow> json option" where
  "str_prop s k =
     (if k = ''length'' then Some (JNum (of_nat (length s)))
      else (case find (\<lambda>i. show_nat i = k) [0..<length s] of
              Some i \<Rightarrow> Some (JStr [s ! i])
            | None \<Rightarrow> None))"

fun own_prop :: "json \<Rightarrow> string \<Rightarrow> json option" where
  "own_prop (JObj fs) k = map_of fs k"
| "own_prop (JStr s) k = str_prop s k"
| "own_prop v k = None"

text \<open>
  Beyond its own properties a value has the members it inherits through its prototype
  chain: a map from \<open>Object.prototype\<close>, a string from \<open>String.prototype\<close> and
  \<open>Object.prototype\<close>, and so on (\<open>constructor\<close>, \<open>toString\<close>, \<open>valueOf\<close>, ...).
  These objects belong to the JavaScript engine, not to the repository, so the table of
  inherited names is a parameter \<open>P\<close> of the model: \<open>P K k\<close> says that a value of kind
  \<open>K\<close> inherits a member named \<open>k\<close>. An inherited member is a function or an object
  of the engine: it is never \<open>undefined\<close> and never payload data.
\<close>

datatype kind = KObject | KString | KNumber | KBoolean

type_synonym protos = "kind \<Rightarrow> string \<Rightarrow> bool"

fun inherits :: "protos \<Rightarrow> json \<Rightarrow> string \<Rightarrow> bool" where
  "inherits P (JObj fs) k = P KObject k"
| "inherits P (JStr s) k = P KString k"
| "inherits P (JNum n) k = P KNumber k"
| "inherits P (JBool b) k = P KBoolean k"
| "inherits P JNull k = False"

text \<open>
  \<open>v[k]\<close> on a value that is neither \<open>null\<close> nor \<open>undefined\<close>: the own property if
  there is one, else the inherited member, else \<open>undefined\<close>. The sources read \<open>v[k]\<close>
  only behind a truthiness or optional-chaining guard, so the \<open>JNull\<close> case is never
  reached there.
\<close>

datatype lookup = Undefined | Own json | Inherited

definition prop_get :: "protos \<Rightarrow> json \<Rightarrow> string \<Rightarrow> lookup" where
  "prop_get P v k =
     (case own_prop v k of
        Some x \<Rightarrow> Own x
      | None \<Rightarrow> if inherits P v k then Inherited else Undefined)"

text \<open>
  The members of the standard prototypes in a current engine (ECMAScript 2024 with the
  legacy additions of browsers), for the concrete examples. The general theorems are
  stated for every table.
\<close>

definition object_members :: "string list" where
  "object_members =
     [''constructor'', ''__defineGetter__'', ''__defineSetter__'', ''hasOwnProperty'',
      ''__lookupGetter__'', ''__lookupSetter__'', ''isPrototypeOf'',
      ''propertyIsEnumerable'', ''toString'', ''valueOf'', ''__proto__'',
      ''toLocaleString'']"

definition string_members :: "string list" where
  "string_members =
     [''anchor'', ''at'', ''big'', ''blink'', ''bold'', ''charAt'', ''charCodeAt'',
      ''codePointAt'', ''concat'', ''endsWith'', ''fontcolor'', ''fontsize'', ''fixed'',
      ''includes'', ''indexOf'', ''isWellFormed'', ''italics'', ''lastIndexOf'', ''link'',
      ''localeCompare'', ''match'', ''matchAll'', ''normalize'', ''padEnd'', ''padStart'',
      ''repeat'', ''replace'', ''replaceAll'', ''search'', ''slice'', ''small'', ''split'',
      ''strike'', ''sub'', ''substr'', ''substring'', ''sup'', ''startsWith'',
      ''toWellFormed'', ''trim'', ''trimStart'', ''trimLeft'', ''trimEnd'', ''trimRight'',
      ''toLocaleLowerCase'', ''toLocaleUpperCase'', ''toLowerCase'', ''toUpperCase'']"

definition number_members :: "string list" where
  "number_members = [''toExponential'', ''toFixed'', ''toPrecision'']"

fun standard_protos :: protos where
  "standard_protos KObject k = (k \<in> set object_members)"
| "standard_protos KString k = (k \<in> set object_members \<or> k \<in> set string_members)"
| "standard_protos KNumber k = (k \<in> set object_members \<or> k \<in> set number_members)"
| "standard_protos KBoolean k = (k \<in> set object_members)"

text \<open>\<open>s.split(sep)\<close> for a one-character separator: empty segments are kept.\<close>

fun split_on :: "char \<Rightarrow> string \<Rightarrow> string list" where
  "split_on sep [] = [[]]"
| "split_on sep (c # cs) =
     (if c = sep then [] # split_on sep cs
      else (case split_on sep cs of
              [] \<Rightarrow> [[c]]
            | p # ps \<Rightarrow> (c # p) # ps))"

section \<open>DeviceCard: sensor values and sensor keys\<close>

text \<open>
  What \<open>findValue\<close> returns: \<open>undefined\<close> (\<open>Absent\<close>), a value of the payload, or
  \<open>Builtin\<close>: the lookup has left the payload through an inherited member, and what
  the code returns from there (that member, one of its properties, or \<open>undefined\<close>) is
  decided by the engine's built-in objects, which are not modelled.
\<close>

datatype found = Absent | Value json | Builtin

text \<open>
  The loop of \<open>findValue\<close> over the parts of a dotted key:
  \<^verbatim>\<open>for (const part of parts) {
    if (current && current[part] !== undefined) current = current[part];
    else return undefined;
  }
  return current;\<close>
\<close>

fun walk_parts :: "protos \<Rightarrow> string list \<Rightarrow> json \<Rightarrow> found" where
  "walk_parts P [] current = Value current"
| "walk_parts P (part # parts) current =
     (if truthy current then
        (case prop_get P current part of
           Own v \<Rightarrow> walk_parts P parts v
         | Inherited \<Rightarrow> Builtin
         | Undefined \<Rightarrow> Absent)
      else Absent)"

text \<open>
  \<open>findValue(obj, key)\<close>: the key as it stands first, then the dotted path, then (for a
  key without a dot) a depth-first search of the nested maps. \<open>find_in\<close> is the final
  \<open>for (const k in obj)\<close> loop; a string has enumerable indices too, but their values
  are strings, so only a map makes the loop recurse. Inherited members are not
  enumerable.
\<close>

fun findValue :: "protos \<Rightarrow> json \<Rightarrow> string \<Rightarrow> found"
  and find_in :: "protos \<Rightarrow> (string \<times> json) list \<Rightarrow> string \<Rightarrow> found" where
  "findValue P obj key =
     (if \<not> truthy obj then Absent
      else (case prop_get P obj key of
              Own v \<Rightarrow> Value v
            | Inherited \<Rightarrow> Builtin
            | Undefined \<Rightarrow>
                if CHR ''.'' \<in> set key then walk_parts P (split_on CHR ''.'' key) obj
                else (case obj of JObj fs \<Rightarrow> find_in P fs key | _ \<Rightarrow> Absent)))"
| "find_in P [] key = Absent"
| "find_in P ((k, v) # rest) key =
     (if is_object v then
        (case findValue P v key of
           Absent \<Rightarrow> find_in P rest key
         | Value x \<Rightarrow> Value x
         | Builtin \<Rightarrow> Builtin)
      else find_in P rest key)"



text \<open>\<open>prefix ? `${prefix}.${k}` : k\<close>: the empty prefix is falsy.\<close>

definition with_prefix :: "string \<Rightarrow> string \<Rightarrow> string" where
  "with_prefix prefix k = (if prefix \<noteq> [] then prefix @ ''.'' @ k else k)"

text \<open>
  \<open>getAllKeys(obj, prefix)\<close>, the same function in DeviceCard and in DeviceDetail;
  \<open>keys_in\<close> is its loop over the entries of a map.
\<close>

fun getAllKeys :: "json \<Rightarrow> string \<Rightarrow> string list"
  and keys_in :: "(string \<times> json) list \<Rightarrow> string \<Rightarrow> string list" where
  "getAllKeys (JObj fs) prefix = keys_in fs prefix"
| "getAllKeys (JStr s) prefix = map (\<lambda>i. with_prefix prefix (show_nat i)) [0..<length s]"
| "getAllKeys JNull prefix = []"
| "getAllKeys (JBool b) prefix = []"
| "getAllKeys (JNum n) prefix = []"
| "keys_in [] prefix = []"
| "keys_in ((k, v) # rest) prefix =
     (if is_object v then getAllKeys v (with_prefix prefix k)
      else [with_prefix prefix k]) @ keys_in rest prefix"

text \<open>
  The flattening the keys of \<open>getAllKeys\<close> stand for: every non-map value of a payload
  with the list of keys that leads to it, in enumeration order. \<open>join_path\<close> writes such a
  list as a dotted key.
\<close>

fun leaf_paths :: "json \<Rightarrow> (string list \<times> json) list"
  and leaf_paths_in :: "(string \<times> json) list \<Rightarrow> (string list \<times> json) list" where
  "leaf_paths (JObj fs) = leaf_paths_in fs"
| "leaf_paths (JStr s) = []"
| "leaf_paths JNull = []"
| "leaf_paths (JBool b) = []"
| "leaf_paths (JNum n) = []"
| "leaf_paths_in [] = []"
| "leaf_paths_in ((k, v) # rest) =
     (if is_object v then map (\<lambda>pl. (k # fst pl, snd pl)) (leaf_paths v)
      else [([k], v)]) @ leaf_paths_in rest"

fun join_path :: "string list \<Rightarrow> string" where
  "join_path [] = []"
| "join_path [k] = k"
| "join_path (k # ks) = k @ ''.'' @ join_path ks"

text \<open>Every key of every map of the payload satisfies \<open>P\<close>.\<close>

fun all_keys :: "(string \<Rightarrow> bool) \<Rightarrow> json \<Rightarrow> bool"
  and all_keys_in :: "(string \<Rightarrow> bool) \<Rightarrow> (string \<times> json) list \<Rightarrow> bool" where
  "all_keys P (JObj fs) = all_keys_in P fs"
| "all_keys P (JStr s) = True"
| "all_keys P JNull = True"
| "all_keys P (JBool b) = True"
| "all_keys P (JNum n) = True"
| "all_keys_in P [] = True"
| "all_keys_in P ((k, v) # rest) = (P k \<and> all_keys P v \<and> all_keys_in P rest)"

definition dot_free :: "string \<Rightarrow> bool" where
  "dot_free k = (CHR ''.'' \<notin> set k)"

text \<open>No entry of the top level has the empty key and a map as its value.\<close>

definition no_map_under_empty_key :: "(string \<times> json) list \<Rightarrow> bool" where
  "no_map_under_empty_key fs = list_all (\<lambda>kv. fst kv \<noteq> [] \<or> \<not> is_object (snd kv)) fs"


definition nested_under_empty_key :: json where
  "nested_under_empty_key = JObj [('''', JObj [(''a'', JObj [(''b'', JNum 1)])])]"

subsection \<open>The payload extractor of the specification\<close>




section \<open>DeviceCard and DeviceDetail: the visible sensors\<close>

text \<open>
  \<open>handleSensorToggle(key)\<close> of DeviceCard, as a function from the current selection to
  the next one.
\<close>

definition handleSensorToggle :: "string list \<Rightarrow> string \<Rightarrow> string list" where
  "handleSensorToggle selectedSensors key =
     (if key \<in> set selectedSensors then filter (\<lambda>k. k \<noteq> key) selectedSensors
      else if length selectedSensors < 3 then selectedSensors @ [key]
      else selectedSensors)"

text \<open>
  \<open>handleCheckboxChange(key)\<close> of DeviceDetail: the new \<open>visible_sensors\<close>, or \<open>None\<close>
  when it alerts ("You can only select up to 3 sensors.") and returns without an update.
\<close>

definition handleCheckboxChange :: "string list \<Rightarrow> string \<Rightarrow> string list option" where
  "handleCheckboxChange currentConfig key =
     (let newConfig = currentConfig in
      if key \<in> set newConfig then Some (filter (\<lambda>k. k \<noteq> key) newConfig)
      else if length newConfig \<ge> 3 then None
      else Some (newConfig @ [key]))"

text \<open>The configuration of the device after the handler has run.\<close>

definition checkbox_step :: "string list \<Rightarrow> string \<Rightarrow> string list" where
  "checkbox_step currentConfig key =
     (case handleCheckboxChange currentConfig key of
        None \<Rightarrow> currentConfig
      | Some newConfig \<Rightarrow> newConfig)"

text \<open>The two properties of a selection: no key twice, at most three keys.\<close>

definition selection_ok :: "string list \<Rightarrow> bool" where
  "selection_ok sel = (distinct sel \<and> length sel \<le> 3)"

section \<open>DeviceCard: the protected toggle\<close>

record device =
  ident :: nat
  attributes :: json
  protected :: bool

datatype request = PostCommand nat string string

record card_state =
  pendingToggle :: "string option"
  showConfirmModal :: bool
  requests :: "request list"
  scheduled_updates :: nat

text \<open>\<open>device.attributes?.[command]\<close>.\<close>

definition attribute_of :: "protos \<Rightarrow> device \<Rightarrow> string \<Rightarrow> lookup" where
  "attribute_of P dev command =
     (if attributes dev = JNull then Undefined else prop_get P (attributes dev) command)"

text \<open>
  \<open>executeToggle(command)\<close>: the POST to \<open>/devices/<id>/command\<close> with payload
  \<open>TOGGLE\<close>; \<open>ok\<close> says whether the request succeeds. On success a refresh is scheduled,
  a failure is caught and logged.
\<close>

definition executeToggle :: "device \<Rightarrow> bool \<Rightarrow> string \<Rightarrow> card_state \<Rightarrow> card_state" where
  "executeToggle dev ok command st =
     st\<lparr>requests := requests st @ [PostCommand (ident dev) command ''TOGGLE''],
        scheduled_updates := (if ok then scheduled_updates st + 1 else scheduled_updates st)\<rparr>"

text \<open>
  \<open>handleToggle(e, command)\<close>; every caller passes the channel as \<open>command\<close>.
  \<open>currentState\<close> is the attribute, or \<open>'OFF'\<close> when the attribute is missing or
  falsy; an inherited member is truthy and is kept.
\<close>

definition handleToggle ::
  "protos \<Rightarrow> device \<Rightarrow> bool \<Rightarrow> string \<Rightarrow> card_state \<Rightarrow> card_state" where
  "handleToggle P dev ok command st =
     (let currentState = (case attribute_of P dev command of
                            Undefined \<Rightarrow> Own (JStr ''OFF'')
                          | Own v \<Rightarrow> if truthy v then Own v else Own (JStr ''OFF'')
                          | Inherited \<Rightarrow> Inherited);
          isTurningOff = (currentState = Own (JStr ''ON'') \<or> currentState = Own (JStr ''1''))
      in if isTurningOff \<and> protected dev
         then st\<lparr>pendingToggle := Some command, showConfirmModal := True\<rparr>
         else executeToggle dev ok command st)"

text \<open>The channel's attribute is the string \<open>ON\<close> or the string \<open>1\<close>.\<close>

definition channel_on :: "protos \<Rightarrow> device \<Rightarrow> string \<Rightarrow> bool" where
  "channel_on P dev channel =
     (attribute_of P dev channel = Own (JStr ''ON'')
      \<or> attribute_of P dev channel = Own (JStr ''1''))"

section \<open>ScheduleForm: the days of a weekly schedule\<close>

text \<open>
  \<open>Array.prototype.sort()\<close> without a comparator orders the elements by their string
  forms, code unit by code unit; it is stable.
\<close>

definition js_sort :: "nat list \<Rightarrow> nat list" where
  "js_sort xs = sort_key show_nat xs"

text \<open>\<open>toggleDay(day)\<close>, on the \<open>days_of_week\<close> field; the other fields are copied.\<close>

definition toggleDay :: "nat list \<Rightarrow> nat \<Rightarrow> nat list" where
  "toggleDay days_of_week day =
     (if day \<in> set days_of_week then filter (\<lambda>d. d \<noteq> day) days_of_week
      else js_sort (days_of_week @ [day]))"

definition days_invariant :: "nat list \<Rightarrow> bool" where
  "days_invariant ds = (distinct ds \<and> sorted ds \<and> set ds \<subseteq> {0..6})"

section \<open>DeviceCard: timer countdowns\<close>

text \<open>
  \<open>newDisplays[switchName] = text\<close> on a plain object kept in insertion order: the value
  of an existing key is replaced in place, a new key is added at the end. The key
  \<open>__proto__\<close> is the exception: the assignment goes to the setter inherited from
  \<open>Object.prototype\<close>, which ignores a string, so no entry is made.
\<close>

fun put_own :: "(string \<times> 'a) list \<Rightarrow> string \<Rightarrow> 'a \<Rightarrow> (string \<times> 'a) list" where
  "put_own [] k v = [(k, v)]"
| "put_own ((k', v') # rest) k v =
     (if k' = k then (k, v) # rest else (k', v') # put_own rest k v)"

definition js_assign :: "(string \<times> string) list \<Rightarrow> string \<Rightarrow> string \<Rightarrow> (string \<times> string) list" where
  "js_assign obj k v = (if k = ''__proto__'' then obj else put_own obj k v)"

text \<open>\<open>s.padStart(2, '0')\<close>.\<close>

definition pad_start2 :: "string \<Rightarrow> string" where
  "pad_start2 s = replicate (2 - length s) CHR ''0'' @ s"

text \<open>
  The countdown text of a positive difference in milliseconds:
  \<open>`${mins}:${secs.toString().padStart(2, '0')}`\<close>.
\<close>

definition countdown :: "int \<Rightarrow> string" where
  "countdown diff =
     (let mins = diff div 60000;
          secs = (diff mod 60000) div 1000
      in show_nat (nat mins) @ '':'' @ pad_start2 (show_nat (nat secs)))"

text \<open>
  \<open>updateTimers\<close> of DeviceCard over \<open>Object.entries(device.active_timers || {})\<close>; each
  deadline is the instant its date string stands for, in milliseconds, and \<open>now\<close> is the
  clock during the loop.
\<close>

definition updateTimers :: "(string \<times> int) list \<Rightarrow> int \<Rightarrow> (string \<times> string) list" where
  "updateTimers activeTimers now =
     foldl (\<lambda>newDisplays (switchName, endTime).
              let diff = endTime - now
              in if diff > 0 then js_assign newDisplays switchName (countdown diff)
                 else newDisplays)
           [] activeTimers"

section \<open>The engine of the specification\<close>

subsection \<open>Timer subsystem\<close>

text \<open>
  Modelled from the spec: the timer subsystem of spec sections 3 and 4.4 (\<open>arm\<close>,
  \<open>cancel\<close>, expiry); the back end that keeps the timers is not among the sources, which
  only read \<open>device.active_timers\<close> and call its timer endpoints. A timer is an entry
  ((device, switch), deadline) of a list, so that two timers of one pair could be
  written down. \<open>arm\<close> cancels any existing timer for that pair, computes
  \<open>deadline = now + duration\<close> and stores it.
\<close>

type_synonym timer_store = "((nat \<times> string) \<times> int) list"

definition cancel :: "timer_store \<Rightarrow> nat \<Rightarrow> string \<Rightarrow> timer_store" where
  "cancel store device_id switch_name = filter (\<lambda>e. fst e \<noteq> (device_id, switch_name)) store"

definition arm :: "timer_store \<Rightarrow> int \<Rightarrow> nat \<Rightarrow> string \<Rightarrow> int \<Rightarrow> timer_store" where
  "arm store now device_id switch_name duration =
     cancel store device_id switch_name @ [((device_id, switch_name), now + duration)]"

text \<open>
  Modelled from the spec: expiry (spec sections 4.4 and 5). The callback scheduled for
  \<open>deadline\<close> fires only if that deadline is still the armed one: it issues the OFF
  command (the flag of the result) and removes the entry; a stale callback does nothing.
\<close>

definition expire :: "timer_store \<Rightarrow> nat \<Rightarrow> string \<Rightarrow> int \<Rightarrow> timer_store \<times> bool" where
  "expire store device_id switch_name deadline =
     (if map_of store (device_id, switch_name) = Some deadline
      then (cancel store device_id switch_name, True)
      else (store, False))"

datatype timer_op = Arm int nat string int | Cancel nat string | Expire nat string int

fun timer_step :: "timer_store \<Rightarrow> timer_op \<Rightarrow> timer_store" where
  "timer_step store (Arm now d s duration) = arm store now d s duration"
| "timer_step store (Cancel d s) = cancel store d s"
| "timer_step store (Expire d s deadline) = fst (expire store d s deadline)"

text \<open>The timers armed for one pair, and the \<open>active_timers\<close> of one device.\<close>

definition timers_of :: "timer_store \<Rightarrow> nat \<Rightarrow> string \<Rightarrow> int list" where
  "timers_of store device_id switch_name =
     map snd (filter (\<lambda>e. fst e = (device_id, switch_name)) store)"

definition active_timers :: "timer_store \<Rightarrow> nat \<Rightarrow> (string \<times> int) list" where
  "active_timers store device_id =
     map (\<lambda>e. (snd (fst e), snd e)) (filter (\<lambda>e. fst (fst e) = device_id) store)"

subsection \<open>Topic matcher\<close>

text \<open>
  Modelled from the spec: the topic matcher of spec section 4.1; the back end that
  implements it is not among the sources. Pattern and topic are token sequences split at
  \<open>/\<close>; \<open>+\<close> matches exactly one token, \<open>#\<close> must be the final token and matches
  zero or more trailing tokens; anything else must be equal.
\<close>

fun match_tokens :: "string list \<Rightarrow> string list \<Rightarrow> bool" where
  "match_tokens [] [] = True"
| "match_tokens [] (t # ts) = False"
| "match_tokens (p # ps) ts =
     (if p = ''#'' then ps = []
      else (case ts of
              [] \<Rightarrow> False
            | t # ts' \<Rightarrow> (p = ''+'' \<or> p = t) \<and> match_tokens ps ts'))"

definition matches :: "string \<Rightarrow> string \<Rightarrow> bool" where
  "matches pattern topic =
     match_tokens (split_on CHR ''/'' pattern) (split_on CHR ''/'' topic)"

text \<open>
  The same contract said position by position: without a final \<open>#\<close> the two sequences
  have the same length; with it, the pattern before the \<open>#\<close> is matched against a
  prefix of the topic. A \<open>#\<close> anywhere else never matches.
\<close>

definition token_ok :: "string \<Rightarrow> string \<Rightarrow> bool" where
  "token_ok p t = (p \<noteq> ''#'' \<and> (p = ''+'' \<or> p = t))"

definition matches_positionwise :: "string list \<Rightarrow> string list \<Rightarrow> bool" where
  "matches_positionwise ps ts =
     (if ps \<noteq> [] \<and> last ps = ''#''
      then length (butlast ps) \<le> length ts
           \<and> list_all2 token_ok (butlast ps) (take (length (butlast ps)) ts)
      else list_all2 token_ok ps ts)"

subsection \<open>Sustained device-state triggers\<close>

text \<open>
  Modelled from the spec: the state machine of a DeviceStateTrigger rule (spec sections 3
  and 4.5); the automation engine is not among the sources. \<open>PendingSustain t\<close> keeps
  the instant the condition became true. One evaluation at time \<open>now\<close> (seconds) with the
  condition's value gives the next state and whether the rule fires.
  \<open>sustain_minutes = 0\<close> fires on the transition to true.
\<close>

datatype sustain_state = Unmet | PendingSustain nat | Fired

fun sustain_step :: "nat \<Rightarrow> sustain_state \<Rightarrow> nat \<times> bool \<Rightarrow> sustain_state \<times> bool" where
  "sustain_step sustain_minutes st (now, False) = (Unmet, False)"
| "sustain_step sustain_minutes Unmet (now, True) =
     (if sustain_minutes = 0 then (Fired, True) else (PendingSustain now, False))"
| "sustain_step sustain_minutes (PendingSustain since) (now, True) =
     (if now - since \<ge> sustain_minutes * 60 then (Fired, True)
      else (PendingSustain since, False))"
| "sustain_step sustain_minutes Fired (now, True) = (Fired, False)"

text \<open>A run over a sequence of evaluations: the final state and the instants of firing.\<close>

fun sustain_run :: "nat \<Rightarrow> sustain_state \<Rightarrow> (nat \<times> bool) list \<Rightarrow> sustain_state \<times> nat list" where
  "sustain_run sustain_minutes st [] = (st, [])"
| "sustain_run sustain_minutes st (ev # evs) =
     (let (st', fired) = sustain_step sustain_minutes st ev;
          (st'', fires) = sustain_run sustain_minutes st' evs
      in (st'', if fired then fst ev # fires else fires))"

definition all_true :: "nat list \<Rightarrow> (nat \<times> bool) list" where
  "all_true ts = map (\<lambda>t. (t, True)) ts"

subsection \<open>Interval schedules\<close>

text \<open>
  Modelled from the spec: the interval branch of the scheduler's one-second tick (spec
  sections 3, 4.6 and 8); the scheduler is not among the sources, where ScheduleForm only
  edits the fields. The run index is \<open>floor(seconds_since_local_midnight /
  interval_seconds)\<close>; the schedule fires when the index is new, and no longer once more
  than the total duration (0 = unbounded) has elapsed since midnight: in the spec's
  example the run at exactly 30 s still happens. An interval of 0, which the form does not
  let through (\<open>min="1"\<close>), never fires.
\<close>

datatype time_unit = Seconds | Minutes | Hours

fun unit_seconds :: "time_unit \<Rightarrow> nat" where
  "unit_seconds Seconds = 1"
| "unit_seconds Minutes = 60"
| "unit_seconds Hours = 3600"

record interval_schedule =
  interval_value :: nat
  interval_unit :: time_unit
  total_duration_value :: nat
  total_duration_unit :: time_unit

definition interval_seconds :: "interval_schedule \<Rightarrow> nat" where
  "interval_seconds sch = interval_value sch * unit_seconds (interval_unit sch)"

definition total_duration :: "interval_schedule \<Rightarrow> nat" where
  "total_duration sch = total_duration_value sch * unit_seconds (total_duration_unit sch)"

text \<open>
  One tick at \<open>t\<close> seconds since local midnight; \<open>last_index\<close> is the run index of the
  last fire, if any. The result is the new \<open>last_index\<close> and whether the schedule fires.
\<close>

definition interval_tick :: "interval_schedule \<Rightarrow> nat option \<Rightarrow> nat \<Rightarrow> nat option \<times> bool" where
  "interval_tick sch last_index t =
     (let n = t div interval_seconds sch in
      if interval_seconds sch = 0 then (last_index, False)
      else if total_duration sch \<noteq> 0 \<and> t > total_duration sch then (last_index, False)
      else if last_index \<noteq> Some n then (Some n, True)
      else (last_index, False))"

fun interval_run :: "interval_schedule \<Rightarrow> nat option \<Rightarrow> nat list \<Rightarrow> nat list" where
  "interval_run sch last_index [] = []"
| "interval_run sch last_index (t # ts) =
     (let (last', fired) = interval_tick sch last_index t
      in (if fired then [t] else []) @ interval_run sch last' ts)"

text \<open>
  The run index kept after the ticks \<open>0, 1, ..., k - 1\<close> of a day, in closed form, and
  the schedule of the spec's example: every 10 seconds, for 30 seconds.
\<close>

definition last_after :: "interval_schedule \<Rightarrow> nat \<Rightarrow> nat option" where
  "last_after sch k =
     (if k = 0 then None
      else Some ((if total_duration sch = 0 then k - 1 else min (k - 1) (total_duration sch))
                 div interval_seconds sch))"

definition ten_for_thirty :: interval_schedule where
  "ten_for_thirty = \<lparr>interval_value = 10, interval_unit = Seconds,
                     total_duration_value = 30, total_duration_unit = Seconds\<rparr>"

section \<open>Properties of the payload extractor\<close>

subsection \<open>Splitting\<close>

lemma split_on_nonempty: "split_on c s \<noteq> []"
  by (induction s) (auto split: list.splits)

lemma split_on_no_sep: "x \<in> set (split_on c s) \<Longrightarrow> c \<notin> set x"
  by (induction s arbitrary: x) (auto split: list.splits if_splits)

lemma split_on_plain: "c \<notin> set s \<Longrightarrow> split_on c s = [s]"
  by (induction s) auto

lemma split_on_append: "split_on c (a @ c # b) = split_on c a @ split_on c b"
  by (induction a) (auto split: list.splits simp: split_on_nonempty)

subsection \<open>Property access\<close>

lemma prop_get_own: "own_prop v k = Some x \<Longrightarrow> prop_get P v k = Own x"
  by (simp add: prop_get_def)



lemma prop_get_object:
  "prop_get P (JObj fs) k =
     (case map_of fs k of
        Some x \<Rightarrow> Own x
      | None \<Rightarrow> if P KObject k then Inherited else Undefined)"
  by (simp add: prop_get_def)


subsection \<open>Dotted paths\<close>




subsection \<open>Keys without a dot\<close>







subsection \<open>Outside the payload\<close>

text \<open>
  A segment that names an inherited member takes the walk out of the payload, to the
  engine's constructor functions for instance; a non-empty string on the way is indexed
  by \<open>length\<close> and by position.
\<close>

lemma findValue_inherited_member:
  "findValue standard_protos (JObj [(''X'', JNum 1)]) ''constructor.name'' = Builtin
   \<and> findValue standard_protos (JObj [(''A'', JNum 5)]) ''A.constructor.name'' = Builtin
   \<and> findValue standard_protos (JObj [(''p'', JObj [(''constructor.name'', JNum 5)])])
        ''p.constructor.name'' = Builtin
   \<and> findValue standard_protos (JObj [(''X'', JNum 1)]) ''toString'' = Builtin"
  by (simp add: prop_get_def object_members_def)

lemma findValue_string_index:
  "findValue standard_protos (JObj [(''A'', JStr ''xyz'')]) ''A.length'' = Value (JNum 3)
   \<and> findValue standard_protos (JObj [(''A'', JStr ''xyz'')]) ''A.1'' = Value (JStr ''y'')"
  by (simp add: prop_get_def object_members_def string_members_def show_nat.simps
      digit_char_def)

subsection \<open>Keys with a literal dot\<close>

text \<open>
  C2 (as the code has it). There is no path escaping, but \<open>findValue\<close> tries the whole
  path as a key first: a top-level key of the payload, with or without a literal \<open>.\<close>,
  is addressable by its own name and yields the stored value.
\<close>

theorem findValue_literal_key:
  "map_of fs k = Some v \<longrightarrow> findValue P (JObj fs) k = Value v"
  by (simp add: prop_get_object)

theorem findValue_literal_key_witness:
  "map_of [(''A.B'', JNum 5)] ''A.B'' = Some (JNum 5)
   \<and> findValue standard_protos (JObj [(''A.B'', JNum 5)]) ''A.B'' = Value (JNum 5)"
  using findValue_literal_key [of "[(''A.B'', JNum 5)]" "''A.B''" "JNum 5" standard_protos]
  by simp

text \<open>The key \<open>A.B\<close> of \<open>{"A.B": 5}\<close> is addressable: the extractor returns 5.\<close>

theorem dotted_key_addressable_counterexample:
  "findValue standard_protos (JObj [(''A.B'', JNum 5)]) ''A.B'' = Value (JNum 5)"
  by (simp add: prop_get_object)

section \<open>Properties of the sensor keys\<close>

lemma join_path_snoc: "pre \<noteq> [] \<Longrightarrow> join_path (pre @ [k]) = join_path pre @ ''.'' @ k"
  by (induction pre rule: join_path.induct) auto

lemma with_prefix_join:
  assumes "join_path pre \<noteq> []"
  shows "with_prefix (join_path pre) k = join_path (pre @ [k])"
proof -
  from assms have "pre \<noteq> []"
    by auto
  with assms show ?thesis
    by (simp add: with_prefix_def join_path_snoc)
qed

lemma join_path_snoc_nonempty: "pre \<noteq> [] \<Longrightarrow> join_path (pre @ [k]) \<noteq> []"
  by (simp add: join_path_snoc)

text \<open>Below a non-empty prefix the keys of \<open>getAllKeys\<close> are the dotted paths.\<close>

lemma getAllKeys_leaf_paths:
  shows "is_object v \<Longrightarrow> join_path pre \<noteq> [] \<Longrightarrow>
         getAllKeys v (join_path pre) = map (\<lambda>pl. join_path (pre @ fst pl)) (leaf_paths v)"
    and "join_path pre \<noteq> [] \<Longrightarrow>
         keys_in fs (join_path pre) = map (\<lambda>pl. join_path (pre @ fst pl)) (leaf_paths_in fs)"
proof (induction v and fs arbitrary: pre and pre rule: leaf_paths_leaf_paths_in.induct)
  case (7 k v rest)
  from "7.prems" have ne: "pre \<noteq> []"
    by auto
  have pre': "join_path (pre @ [k]) \<noteq> []"
    using ne by (rule join_path_snoc_nonempty)
  have tail: "keys_in rest (join_path pre)
      = map (\<lambda>pl. join_path (pre @ fst pl)) (leaf_paths_in rest)"
    using "7.IH"(2) "7.prems" by simp
  show ?case
  proof (cases "is_object v")
    case True
    then have "getAllKeys v (join_path (pre @ [k]))
        = map (\<lambda>pl. join_path ((pre @ [k]) @ fst pl)) (leaf_paths v)"
      using "7.IH"(1) pre' by blast
    with True tail show ?thesis
      by (simp add: with_prefix_join "7.prems" comp_def)
  next
    case False
    with tail show ?thesis
      by (simp add: with_prefix_join "7.prems")
  qed
qed simp_all

text \<open>
  At the top level the prefix is empty; the keys are the dotted paths as long as no map
  sits under the empty key.
\<close>

lemma keys_in_top_level:
  "no_map_under_empty_key fs \<Longrightarrow>
   keys_in fs [] = map (\<lambda>pl. join_path (fst pl)) (leaf_paths_in fs)"
proof (induction fs)
  case Nil
  show ?case by simp
next
  case (Cons kv fs)
  obtain k v where kv: "kv = (k, v)"
    by (cases kv)
  from Cons have tail: "keys_in fs [] = map (\<lambda>pl. join_path (fst pl)) (leaf_paths_in fs)"
    by (simp add: no_map_under_empty_key_def)
  show ?case
  proof (cases "is_object v")
    case True
    with Cons.prems have "k \<noteq> []"
      by (simp add: no_map_under_empty_key_def kv)
    then have "getAllKeys v k = map (\<lambda>pl. join_path ([k] @ fst pl)) (leaf_paths v)"
      using getAllKeys_leaf_paths(1) [of v "[k]"] True by simp
    with True tail show ?thesis
      by (simp add: kv with_prefix_def comp_def)
  next
    case False
    with tail show ?thesis
      by (simp add: kv with_prefix_def)
  qed
qed

lemma leaf_paths_in_head:
  shows "(path, leaf) \<in> set (leaf_paths v) \<Longrightarrow> path \<noteq> []"
    and "(path, leaf) \<in> set (leaf_paths_in fs) \<Longrightarrow> path \<noteq> [] \<and> hd path \<in> fst ` set fs"
  by (induction v and fs arbitrary: path leaf and path leaf rule: leaf_paths_leaf_paths_in.induct)
    (auto split: if_splits)

lemma leaf_paths_keys:
  shows "(path, leaf) \<in> set (leaf_paths v) \<Longrightarrow> all_keys Q v \<Longrightarrow> \<forall>p\<in>set path. Q p"
    and "(path, leaf) \<in> set (leaf_paths_in fs) \<Longrightarrow> all_keys_in Q fs \<Longrightarrow> \<forall>p\<in>set path. Q p"
  by (induction v and fs arbitrary: path leaf and path leaf rule: leaf_paths_leaf_paths_in.induct)
    (auto split: if_splits)

lemma leaf_paths_leaf:
  shows "(path, leaf) \<in> set (leaf_paths v) \<Longrightarrow> \<not> is_object leaf"
    and "(path, leaf) \<in> set (leaf_paths_in fs) \<Longrightarrow> \<not> is_object leaf"
  by (induction v and fs arbitrary: path leaf and path leaf rule: leaf_paths_leaf_paths_in.induct)
    (auto split: if_splits)

lemma walk_parts_skip_field:
  assumes "path \<noteq> []" and "hd path \<noteq> k"
  shows "walk_parts P path (JObj ((k, v) # rest)) = walk_parts P path (JObj rest)"
  using assms by (cases path) (auto simp: prop_get_object)

lemma walk_parts_leaf:
  shows "(path, leaf) \<in> set (leaf_paths v) \<Longrightarrow> wf_json v \<Longrightarrow>
         walk_parts P path v = Value leaf"
    and "(path, leaf) \<in> set (leaf_paths_in fs) \<Longrightarrow> distinct (map fst fs) \<Longrightarrow> wf_fields fs \<Longrightarrow>
         walk_parts P path (JObj fs) = Value leaf"
proof (induction v and fs arbitrary: path leaf and path leaf rule: leaf_paths_leaf_paths_in.induct)
  case (1 fs)
  then show ?case by simp
next
  case (7 k v rest)
  from "7.prems" have k: "k \<notin> fst ` set rest" and d: "distinct (map fst rest)"
    and wv: "wf_json v" and wr: "wf_fields rest"
    by simp_all
  show ?case
  proof (cases "(path, leaf) \<in> set (leaf_paths_in rest)")
    case True
    then have "walk_parts P path (JObj rest) = Value leaf"
      using "7.IH"(2) d wr by blast
    moreover from True have "path \<noteq> []" and "hd path \<in> fst ` set rest"
      using leaf_paths_in_head(2) [of path leaf rest] by simp_all
    with k have "path \<noteq> []" and "hd path \<noteq> k"
      by auto
    ultimately show ?thesis
      by (simp add: walk_parts_skip_field)
  next
    case False
    show ?thesis
    proof (cases "is_object v")
      case True
      with False "7.prems"(1) obtain p' where path: "path = k # p'"
        and p': "(p', leaf) \<in> set (leaf_paths v)"
        by auto
      from p' have "walk_parts P p' v = Value leaf"
        using "7.IH"(1) True wv by blast
      then show ?thesis
        by (simp add: path prop_get_object)
    next
      case nobj: False
      with False "7.prems"(1) have "path = [k]" and "leaf = v"
        by auto
      then show ?thesis
        by (simp add: prop_get_object)
    qed
  qed
qed simp_all

lemma split_on_join_path:
  "path \<noteq> [] \<Longrightarrow> \<forall>p\<in>set path. CHR ''.'' \<notin> set p \<Longrightarrow>
   split_on CHR ''.'' (join_path path) = path"
proof (induction path rule: join_path.induct)
  case 1
  then show ?case by simp
next
  case (2 k)
  then show ?case by (simp add: split_on_plain)
next
  case (3 k k' ks)
  have "split_on CHR ''.'' (k @ CHR ''.'' # join_path (k' # ks))
      = split_on CHR ''.'' k @ split_on CHR ''.'' (join_path (k' # ks))"
    by (rule split_on_append)
  with 3 show ?case
    by (simp add: split_on_plain)
qed

lemma join_path_dotted:
  "length path \<ge> 2 \<Longrightarrow> CHR ''.'' \<in> set (join_path path)"
  by (induction path rule: join_path.induct) auto

lemma all_keys_in_fields: "all_keys_in Q fs \<Longrightarrow> (k, v) \<in> set fs \<Longrightarrow> Q k"
  by (induction fs) auto

lemma findValue_leaf:
  assumes leaf: "(path, leaf) \<in> set (leaf_paths_in fs)"
    and wf: "wf_json (JObj fs)"
    and keys: "all_keys dot_free (JObj fs)"
    and names: "\<forall>k. P KObject k \<longrightarrow> dot_free k"
  shows "findValue P (JObj fs) (join_path path) = Value leaf"
proof -
  have walk: "walk_parts P path (JObj fs) = Value leaf"
    using walk_parts_leaf(2) [OF leaf] wf by simp
  have ne: "path \<noteq> []"
    using leaf_paths_in_head(2) [OF leaf] by simp
  have plain: "\<forall>p\<in>set path. dot_free p"
    using leaf_paths_keys(2) [OF leaf] keys by simp
  show ?thesis
  proof (cases "length path \<ge> 2")
    case True
    then have dotted: "CHR ''.'' \<in> set (join_path path)"
      by (rule join_path_dotted)
    have "map_of fs (join_path path) = None"
    proof (rule ccontr)
      assume "map_of fs (join_path path) \<noteq> None"
      then obtain v where "map_of fs (join_path path) = Some v"
        by auto
      then have "(join_path path, v) \<in> set fs"
        by (rule map_of_SomeD)
      with keys have "dot_free (join_path path)"
        using all_keys_in_fields [of dot_free fs "join_path path" v] by simp
      with dotted show False
        by (simp add: dot_free_def)
    qed
    moreover from dotted names have "\<not> P KObject (join_path path)"
      by (auto simp: dot_free_def)
    moreover have "split_on CHR ''.'' (join_path path) = path"
      using ne plain by (intro split_on_join_path) (auto simp: dot_free_def)
    ultimately show ?thesis
      using dotted walk by (simp add: prop_get_object)
  next
    case False
    with ne obtain k where path: "path = [k]"
      by (cases path rule: join_path.cases) auto
    from walk have "map_of fs k = Some leaf"
      by (simp add: path prop_get_object split: option.splits if_splits)
    then show ?thesis
      by (simp add: path prop_get_object)
  qed
qed

text \<open>
  The round trip, where it holds: keys without a literal \<open>.\<close>, and no map under the
  empty key at the top level. Every key of \<open>getAllKeys\<close> is then the dotted path of a
  leaf, and \<open>findValue\<close> resolves it to that leaf.
\<close>

lemma getAllKeys_roundtrip:
  assumes "wf_json (JObj fs)" and "all_keys dot_free (JObj fs)"
    and "no_map_under_empty_key fs" and "\<forall>k. P KObject k \<longrightarrow> dot_free k"
  shows "getAllKeys (JObj fs) [] = map (\<lambda>pl. join_path (fst pl)) (leaf_paths (JObj fs))"
    and "\<forall>pl\<in>set (leaf_paths (JObj fs)).
           findValue P (JObj fs) (join_path (fst pl)) = Value (snd pl) \<and> \<not> is_object (snd pl)"
proof -
  show "getAllKeys (JObj fs) [] = map (\<lambda>pl. join_path (fst pl)) (leaf_paths (JObj fs))"
    using keys_in_top_level [OF assms(3)] by simp
  show "\<forall>pl\<in>set (leaf_paths (JObj fs)).
           findValue P (JObj fs) (join_path (fst pl)) = Value (snd pl) \<and> \<not> is_object (snd pl)"
  proof
    fix pl
    assume "pl \<in> set (leaf_paths (JObj fs))"
    then have mem: "(fst pl, snd pl) \<in> set (leaf_paths_in fs)"
      by simp
    show "findValue P (JObj fs) (join_path (fst pl)) = Value (snd pl) \<and> \<not> is_object (snd pl)"
      using findValue_leaf [where P = P, OF mem assms(1,2,4)] leaf_paths_leaf(2) [OF mem]
      by simp
  qed
qed

lemma getAllKeys_resolves:
  assumes "wf_json (JObj fs)" and "all_keys dot_free (JObj fs)"
    and "no_map_under_empty_key fs" and "\<forall>k. P KObject k \<longrightarrow> dot_free k"
    and "key \<in> set (getAllKeys (JObj fs) [])"
  shows "\<exists>leaf. findValue P (JObj fs) key = Value leaf \<and> \<not> is_object leaf"
proof -
  from assms(5) obtain pl where pl: "pl \<in> set (leaf_paths (JObj fs))"
    and key: "key = join_path (fst pl)"
    unfolding getAllKeys_roundtrip(1) [where P = P, OF assms(1-4)] by auto
  from pl have "findValue P (JObj fs) (join_path (fst pl)) = Value (snd pl)
      \<and> \<not> is_object (snd pl)"
    using getAllKeys_roundtrip(2) [where P = P, OF assms(1-4)] by blast
  then show ?thesis
    unfolding key by blast
qed

lemma standard_names_dot_free: "\<forall>k. standard_protos KObject k \<longrightarrow> dot_free k"
  by (auto simp: object_members_def dot_free_def)

text \<open>An empty key below the top level keeps its segment: \<open>{"a": {"": 1}}\<close> lists \<open>a.\<close>.\<close>

lemma getAllKeys_nested_empty_key:
  "getAllKeys (JObj [(''a'', JObj [('''', JNum 1)])]) [] = [''a.'']
   \<and> findValue standard_protos (JObj [(''a'', JObj [('''', JNum 1)])]) ''a.'' = Value (JNum 1)"
  by (simp add: with_prefix_def prop_get_object object_members_def)

text \<open>
  C8. The round trip of \<open>getAllKeys\<close> and \<open>findValue\<close> fails on an attributes object
  whose keys contain no literal \<open>.\<close>: with a map under the empty key at the top
  level, the prefix test of \<open>getAllKeys\<close> drops the empty segment. In
  \<open>{"": {"a": {"b": 1}}}\<close> the leaf at \<open>["", "a", "b"]\<close> is listed as \<open>a.b\<close>, and
  \<open>findValue\<close> returns absent on that key.
\<close>

theorem getAllKeys_empty_key_unresolved:
  "wf_json nested_under_empty_key
   \<and> all_keys dot_free nested_under_empty_key
   \<and> leaf_paths nested_under_empty_key = [(['''', ''a'', ''b''], JNum 1)]
   \<and> getAllKeys nested_under_empty_key '''' = [''a.b'']
   \<and> findValue standard_protos nested_under_empty_key ''a.b'' = Absent"
  by (simp add: nested_under_empty_key_def dot_free_def with_prefix_def prop_get_object
      object_members_def)

section \<open>Properties of the visible sensors\<close>

lemma handleSensorToggle_ok: "selection_ok sel \<Longrightarrow> selection_ok (handleSensorToggle sel key)"
  unfolding selection_ok_def handleSensorToggle_def
  by (auto intro: le_trans [OF length_filter_le])

lemma checkbox_step_eq: "checkbox_step sel key = handleSensorToggle sel key"
  by (simp add: checkbox_step_def handleCheckboxChange_def handleSensorToggle_def Let_def)

lemma foldl_selection_ok:
  "selection_ok sel \<Longrightarrow> selection_ok (foldl handleSensorToggle sel keys)"
  by (induction keys arbitrary: sel) (auto simp: handleSensorToggle_ok)

text \<open>
  C9. Starting from a duplicate-free selection of at most three keys, every sequence of
  sensor toggles, by \<open>handleSensorToggle\<close> of DeviceCard or by \<open>handleCheckboxChange\<close>
  of DeviceDetail, leaves a duplicate-free selection of at most three keys. A toggle on a
  selected key removes it; a toggle on an unselected key adds it when fewer than three
  keys are selected and changes nothing otherwise.
\<close>

theorem visible_sensors_invariant:
  "(selection_ok sel \<longrightarrow>
      selection_ok (foldl handleSensorToggle sel keys)
      \<and> selection_ok (foldl checkbox_step sel keys))
   \<and> (key \<in> set sel \<longrightarrow>
        handleSensorToggle sel key = filter (\<lambda>k. k \<noteq> key) sel
        \<and> checkbox_step sel key = filter (\<lambda>k. k \<noteq> key) sel)
   \<and> (key \<notin> set sel \<and> length sel < 3 \<longrightarrow>
        handleSensorToggle sel key = sel @ [key] \<and> checkbox_step sel key = sel @ [key])
   \<and> (key \<notin> set sel \<and> \<not> length sel < 3 \<longrightarrow>
        handleSensorToggle sel key = sel \<and> checkbox_step sel key = sel)"
proof -
  have eq: "checkbox_step = handleSensorToggle"
    by (intro ext) (rule checkbox_step_eq)
  show ?thesis
    unfolding eq using foldl_selection_ok [of sel keys]
    by (auto simp: handleSensorToggle_def)
qed

theorem visible_sensors_invariant_witness:
  "selection_ok [''a'', ''b'', ''c'']
   \<and> selection_ok (foldl handleSensorToggle [''a'', ''b'', ''c''] [''d'', ''a'', ''d''])
   \<and> foldl handleSensorToggle [''a'', ''b'', ''c''] [''d'', ''a'', ''d''] = [''b'', ''c'', ''d'']
   \<and> foldl checkbox_step [''a'', ''b'', ''c''] [''d'', ''a'', ''d''] = [''b'', ''c'', ''d'']
   \<and> handleSensorToggle [''a'', ''b'', ''c''] ''d'' = [''a'', ''b'', ''c'']"
  using visible_sensors_invariant [of "[''a'', ''b'', ''c'']" "[''d'', ''a'', ''d'']" "''d''"]
  by (simp add: selection_ok_def handleSensorToggle_def checkbox_step_def
      handleCheckboxChange_def)

section \<open>Properties of the protected toggle\<close>

lemma isTurningOff_channel_on:
  "((case attribute_of P dev c of
       Undefined \<Rightarrow> Own (JStr ''OFF'')
     | Own v \<Rightarrow> if truthy v then Own v else Own (JStr ''OFF'')
     | Inherited \<Rightarrow> Inherited) \<in> {Own (JStr ''ON''), Own (JStr ''1'')})
   = channel_on P dev c"
  by (auto simp: channel_on_def split: lookup.splits)

text \<open>
  C10. \<open>handleToggle\<close> issues the TOGGLE command at once if and only if it is not the
  case that the device is protected and the channel's state is \<open>ON\<close> or \<open>1\<close> (a
  missing attribute counts as \<open>OFF\<close>). When the device is protected and the channel
  is on, no command is sent and the channel is recorded as the pending toggle, with the
  confirmation dialog shown.
\<close>

theorem handleToggle_guard:
  "((requests (handleToggle P dev ok channel st)
      = requests st @ [PostCommand (ident dev) channel ''TOGGLE''])
    = (\<not> (protected dev \<and> channel_on P dev channel)))
   \<and> (protected dev \<and> channel_on P dev channel \<longrightarrow>
        requests (handleToggle P dev ok channel st) = requests st
        \<and> pendingToggle (handleToggle P dev ok channel st) = Some channel
        \<and> showConfirmModal (handleToggle P dev ok channel st))"
  using isTurningOff_channel_on [of P dev channel]
  by (auto simp: handleToggle_def executeToggle_def Let_def)

theorem handleToggle_guard_witness:
  "protected \<lparr>ident = 7, attributes = JObj [(''POWER1'', JStr ''ON'')], protected = True\<rparr>
   \<and> channel_on standard_protos
        \<lparr>ident = 7, attributes = JObj [(''POWER1'', JStr ''ON'')], protected = True\<rparr>
        ''POWER1''
   \<and> requests (handleToggle standard_protos
        \<lparr>ident = 7, attributes = JObj [(''POWER1'', JStr ''ON'')], protected = True\<rparr> True
        ''POWER1''
        \<lparr>pendingToggle = None, showConfirmModal = False, requests = [],
          scheduled_updates = 0\<rparr>) = []
   \<and> pendingToggle (handleToggle standard_protos
        \<lparr>ident = 7, attributes = JObj [(''POWER1'', JStr ''ON'')], protected = True\<rparr> True
        ''POWER1''
        \<lparr>pendingToggle = None, showConfirmModal = False, requests = [],
          scheduled_updates = 0\<rparr>) = Some ''POWER1''"
  using handleToggle_guard
    [of standard_protos
      "\<lparr>ident = 7, attributes = JObj [(''POWER1'', JStr ''ON'')], protected = True\<rparr>" True
      "''POWER1''"
      "\<lparr>pendingToggle = None, showConfirmModal = False, requests = [],
        scheduled_updates = 0\<rparr>"]
  by (simp add: channel_on_def attribute_of_def prop_get_object)

section \<open>Properties of the days of a weekly schedule\<close>

lemma show_nat_digit: "n < 10 \<Longrightarrow> show_nat n = [digit_char n]"
  by (simp add: show_nat.simps)

lemma small_nat_cases:
  "(n::nat) \<le> 6 \<Longrightarrow> n = 0 \<or> n = 1 \<or> n = 2 \<or> n = 3 \<or> n = 4 \<or> n = 5 \<or> n = 6"
  by arith

lemma digit_char_le:
  assumes "a \<le> 6" and "b \<le> 6"
  shows "(digit_char a \<le> digit_char b) = (a \<le> b)"
  using small_nat_cases [OF assms(1)] small_nat_cases [OF assms(2)]
  by (auto simp: digit_char_def)

lemma show_nat_le:
  assumes "a \<le> 6" and "b \<le> 6"
  shows "(show_nat a \<le> show_nat b) = (a \<le> b)"
  using small_nat_cases [OF assms(1)] small_nat_cases [OF assms(2)]
  by (auto simp: show_nat_digit digit_char_def)

lemma sorted_js_sort:
  assumes "set xs \<subseteq> {0..6}"
  shows "sorted (js_sort xs)"
proof -
  have "sorted (map show_nat (js_sort xs))"
    by (simp add: js_sort_def)
  then have "sorted_wrt (\<lambda>a b. show_nat a \<le> show_nat b) (js_sort xs)"
    by (simp add: sorted_map)
  moreover have "a \<le> b"
    if "a \<in> set (js_sort xs)" and "b \<in> set (js_sort xs)" and le: "show_nat a \<le> show_nat b"
    for a b
  proof -
    from that assms have "a \<le> 6" and "b \<le> 6"
      by (auto simp: js_sort_def)
    then show ?thesis
      using le by (simp add: show_nat_le)
  qed
  ultimately show ?thesis
    by (rule sorted_wrt_mono_rel [rotated])
qed

lemma set_js_sort: "set (js_sort xs) = set xs"
  by (simp add: js_sort_def)

lemma distinct_js_sort: "distinct (js_sort xs) = distinct xs"
  by (simp add: js_sort_def)

lemma toggleDay_set:
  "set (toggleDay ds day) = (if day \<in> set ds then set ds - {day} else insert day (set ds))"
  by (auto simp: toggleDay_def set_js_sort)

lemma toggleDay_distinct: "distinct ds \<Longrightarrow> distinct (toggleDay ds day)"
  by (simp add: toggleDay_def distinct_js_sort)

lemma toggleDay_range:
  "set ds \<subseteq> {0..6} \<Longrightarrow> day \<le> 6 \<Longrightarrow> set (toggleDay ds day) \<subseteq> {0..6}"
  by (auto simp: toggleDay_set)

lemma toggleDay_sorted:
  "sorted ds \<Longrightarrow> set ds \<subseteq> {0..6} \<Longrightarrow> day \<le> 6 \<Longrightarrow> sorted (toggleDay ds day)"
  by (simp add: toggleDay_def sorted_js_sort sorted_wrt_filter)

lemma toggleDay_insert_sorted:
  "day \<notin> set ds \<Longrightarrow> set ds \<subseteq> {0..6} \<Longrightarrow> day \<le> 6 \<Longrightarrow> sorted (toggleDay ds day)"
  by (simp add: toggleDay_def sorted_js_sort)

lemma toggleDay_invariant_step:
  "days_invariant ds \<Longrightarrow> day \<le> 6 \<Longrightarrow> days_invariant (toggleDay ds day)"
  unfolding days_invariant_def
  using toggleDay_distinct toggleDay_range toggleDay_sorted by blast

lemma foldl_toggleDay_invariant:
  "days_invariant ds \<Longrightarrow> set days \<subseteq> {0..6} \<Longrightarrow> days_invariant (foldl toggleDay ds days)"
  by (induction days arbitrary: ds) (auto simp: toggleDay_invariant_step)

lemma foldl_toggleDay_distinct_range:
  "distinct ds \<Longrightarrow> set ds \<subseteq> {0..6} \<Longrightarrow> set days \<subseteq> {0..6} \<Longrightarrow>
   distinct (foldl toggleDay ds days) \<and> set (foldl toggleDay ds days) \<subseteq> {0..6}"
proof (induction days arbitrary: ds)
  case Nil
  then show ?case by simp
next
  case (Cons d days)
  from Cons.prems have d: "d \<le> 6" and rest: "set days \<subseteq> {0..6}"
    by auto
  have "distinct (toggleDay ds d)"
    using Cons.prems(1) by (rule toggleDay_distinct)
  moreover have "set (toggleDay ds d) \<subseteq> {0..6}"
    using Cons.prems(2) d by (rule toggleDay_range)
  ultimately show ?case
    using Cons.IH [of "toggleDay ds d"] rest by simp
qed

text \<open>
  The default sort compares decimal strings: 10 comes before 2. On single digits this is
  the numeric order.
\<close>

lemma js_sort_digits: "js_sort [1, 5, 3] = [1, 3, 5]"
  by (simp add: js_sort_def show_nat_digit digit_char_def)

lemma js_sort_by_strings: "js_sort [2, 10] = [10, 2]"
  by (simp add: js_sort_def show_nat.simps digit_char_def)

text \<open>
  C7 (as the code has it). Starting from a duplicate-free, sorted list of values in 0..6,
  every sequence of \<open>toggleDay\<close> operations with days from 0 to 6 leaves a
  duplicate-free, sorted list of values in 0..6. From a list that is only duplicate-free,
  duplicate-freedom and the range are kept all the same. \<open>toggleDay\<close> removes the day if
  present, without re-sorting, and inserts it and sorts if absent.
\<close>

theorem toggleDay_preserves_days_invariant:
  "(days_invariant ds \<and> set days \<subseteq> {0..6} \<longrightarrow> days_invariant (foldl toggleDay ds days))
   \<and> (distinct ds \<and> set ds \<subseteq> {0..6} \<and> set days \<subseteq> {0..6} \<longrightarrow>
        distinct (foldl toggleDay ds days) \<and> set (foldl toggleDay ds days) \<subseteq> {0..6})
   \<and> (day \<in> set ds \<longrightarrow> toggleDay ds day = filter (\<lambda>d. d \<noteq> day) ds)
   \<and> (day \<notin> set ds \<and> set ds \<subseteq> {0..6} \<and> day \<le> 6 \<longrightarrow>
        sorted (toggleDay ds day) \<and> set (toggleDay ds day) = insert day (set ds))"
  using foldl_toggleDay_invariant [of ds days] foldl_toggleDay_distinct_range [of ds days]
    toggleDay_insert_sorted [of day ds] toggleDay_set [of ds day]
  by (simp add: toggleDay_def set_js_sort)

theorem toggleDay_preserves_days_invariant_witness:
  "days_invariant [1, 5] \<and> set [3, 1] \<subseteq> {0..6::nat}
   \<and> days_invariant (foldl toggleDay [1, 5] [3, 1])
   \<and> foldl toggleDay [1, 5] [3, 1] = [3, 5]"
  using toggleDay_preserves_days_invariant [of "[1, 5]" "[3, 1]" 3]
  by (simp add: days_invariant_def toggleDay_def js_sort_def show_nat_digit digit_char_def)

theorem toggleDay_unsorted_start_counterexample:
  "distinct [3, 2, 1 :: nat] \<and> set [3, 2, 1] \<subseteq> {0..6::nat} \<and> set [3] \<subseteq> {0..6::nat}
   \<and> foldl toggleDay [3, 2, 1] [3] = [2, 1]
   \<and> \<not> days_invariant (foldl toggleDay [3, 2, 1] [3])"
  by (simp add: toggleDay_def days_invariant_def)

section \<open>Properties of the timers\<close>

lemma distinct_cancel: "distinct (map fst store) \<Longrightarrow> distinct (map fst (cancel store d s))"
  by (simp add: cancel_def distinct_map_filter)

lemma cancel_removes: "(d, s) \<notin> fst ` set (cancel store d s)"
  by (auto simp: cancel_def)

lemma distinct_arm: "distinct (map fst store) \<Longrightarrow> distinct (map fst (arm store now d s dur))"
  using cancel_removes [of d s store] by (simp add: arm_def distinct_cancel)

lemma distinct_timer_step:
  "distinct (map fst store) \<Longrightarrow> distinct (map fst (timer_step store op))"
  by (cases op) (simp_all add: distinct_arm distinct_cancel expire_def)

lemma distinct_timer_steps:
  "distinct (map fst store) \<Longrightarrow> distinct (map fst (foldl timer_step store ops))"
  by (induction ops arbitrary: store) (simp_all add: distinct_timer_step)

lemma distinct_at_most_one:
  "distinct (map fst store) \<Longrightarrow> length (filter (\<lambda>e. fst e = k) store) \<le> 1"
proof (induction store)
  case Nil
  show ?case by simp
next
  case (Cons e store)
  show ?case
  proof (cases "fst e = k")
    case True
    have "fst x \<noteq> k" if "x \<in> set store" for x
    proof -
      from that have mem: "fst x \<in> fst ` set store"
        by simp
      from Cons.prems have notin: "fst e \<notin> fst ` set store"
        by simp
      show ?thesis
      proof
        assume "fst x = k"
        with True mem have "fst e \<in> fst ` set store"
          by simp
        with notin show False ..
      qed
    qed
    then have "filter (\<lambda>e. fst e = k) store = []"
      by (simp add: filter_empty_conv)
    with True show ?thesis by simp
  next
    case False
    with Cons show ?thesis by simp
  qed
qed

lemma timers_of_arm: "timers_of (arm store now d s dur) d s = [now + dur]"
proof -
  have "filter (\<lambda>e. fst e = (d, s)) (cancel store d s) = []"
    by (auto simp: cancel_def filter_empty_conv)
  then show ?thesis
    by (simp add: timers_of_def arm_def)
qed

lemma timers_of_arm_other:
  "(d', s') \<noteq> (d, s) \<Longrightarrow> timers_of (arm store now d s dur) d' s' = timers_of store d' s'"
proof -
  assume ne: "(d', s') \<noteq> (d, s)"
  have "filter (\<lambda>e. fst e = (d', s')) (filter (\<lambda>e. fst e \<noteq> (d, s)) store)
      = filter (\<lambda>e. fst e = (d', s')) store"
    using ne by (auto intro: filter_cong)
  with ne show ?thesis
    by (auto simp: timers_of_def arm_def cancel_def)
qed

lemma active_timers_arm:
  "map_of (active_timers (arm store now d s dur) d) s = Some (now + dur)"
proof -
  have "s \<notin> fst ` set (active_timers (cancel store d s) d)"
    by (auto simp: active_timers_def cancel_def)
  then have "map_of (active_timers (cancel store d s) d) s = None"
    by (simp add: map_of_eq_None_iff)
  then show ?thesis
    by (simp add: active_timers_def arm_def map_add_def)
qed

lemma active_timers_Cons:
  "active_timers (e # store) d
     = (if fst (fst e) = d then (snd (fst e), snd e) # active_timers store d
        else active_timers store d)"
  by (simp add: active_timers_def)

lemma distinct_active_timers:
  "distinct (map fst store) \<Longrightarrow> distinct (map fst (active_timers store d))"
proof (induction store)
  case Nil
  show ?case by (simp add: active_timers_def)
next
  case (Cons e store)
  obtain d' s dl where e: "e = ((d', s), dl)"
    by (cases e) auto
  from Cons have IH: "distinct (map fst (active_timers store d))"
    and notin: "(d', s) \<notin> fst ` set store"
    by (simp_all add: e)
  have "s \<notin> fst ` set (active_timers store d)" if "d' = d"
  proof
    assume "s \<in> fst ` set (active_timers store d)"
    then obtain x where "x \<in> set store" and "fst (fst x) = d" and "snd (fst x) = s"
      by (auto simp: active_timers_def)
    then have "fst x = (d', s)" and "x \<in> set store"
      using that by (auto simp: prod_eq_iff)
    then have "(d', s) \<in> fst ` set store"
      by (metis imageI)
    with notin show False ..
  qed
  with IH show ?case
    by (simp add: active_timers_Cons e)
qed

lemma put_own_keys: "fst ` set (put_own xs k v) = insert k (fst ` set xs)"
proof (induction xs)
  case Nil
  show ?case by simp
next
  case (Cons x xs)
  obtain k' v' where x: "x = (k', v')" by (cases x)
  show ?case
  proof (cases "k' = k")
    case True
    then show ?thesis
      by (simp add: x)
  next
    case False
    with Cons.IH show ?thesis
      by (simp add: x insert_commute)
  qed
qed

lemma distinct_put_own:
  "distinct (map fst xs) \<Longrightarrow> distinct (map fst (put_own xs k v))"
proof (induction xs)
  case Nil
  show ?case by simp
next
  case (Cons x xs)
  obtain k' v' where x: "x = (k', v')" by (cases x)
  show ?case
  proof (cases "k' = k")
    case True
    with Cons.prems show ?thesis
      by (simp add: x)
  next
    case False
    from Cons.prems have "k' \<notin> fst ` set xs" and "distinct (map fst xs)"
      by (simp_all add: x)
    with False Cons.IH show ?thesis
      by (simp add: x put_own_keys)
  qed
qed

lemma distinct_js_assign:
  "distinct (map fst xs) \<Longrightarrow> distinct (map fst (js_assign xs k v))"
  by (simp add: js_assign_def distinct_put_own)

lemma distinct_foldl_displays:
  "distinct (map fst acc) \<Longrightarrow>
   distinct (map fst (foldl (\<lambda>newDisplays (switchName, endTime).
              let diff = endTime - now
              in if diff > 0 then js_assign newDisplays switchName (countdown diff)
                 else newDisplays) acc entries))"
  by (induction entries arbitrary: acc) (auto simp: Let_def distinct_js_assign)

lemma distinct_updateTimers: "distinct (map fst (updateTimers activeTimers now))"
  unfolding updateTimers_def by (rule distinct_foldl_displays) simp

text \<open>A timer with 124 seconds left is shown as \<open>2:04\<close>; an expired one is not shown.\<close>

lemma updateTimers_example:
  "updateTimers [(''POWER1'', 125000), (''POWER2'', 500)] 1000
     = [(''POWER1'', ''2:04'')]"
  by (simp add: updateTimers_def js_assign_def countdown_def pad_start2_def show_nat.simps
      digit_char_def)

text \<open>
  C6. At most one auto-off timer is armed per device and switch at any time: after any
  sequence of arm, cancel and expiry operations, from a store with at most one timer per
  pair, each pair has at most one deadline. Arming a timer for a pair replaces the
  deadline of that pair, leaves the other pairs alone, and is what \<open>active_timers\<close> of
  the device then holds for the switch. The countdown display of DeviceCard has one entry
  per switch name.
\<close>

theorem one_timer_per_switch:
  "(distinct (map fst store) \<longrightarrow>
      length (timers_of (foldl timer_step store ops) d' s') \<le> 1
      \<and> distinct (map fst (active_timers (foldl timer_step store ops) d')))
   \<and> timers_of (arm store now d s dur) d s = [now + dur]
   \<and> ((d', s') \<noteq> (d, s) \<longrightarrow>
        timers_of (arm store now d s dur) d' s' = timers_of store d' s')
   \<and> map_of (active_timers (arm store now d s dur) d) s = Some (now + dur)
   \<and> distinct (map fst (updateTimers activeTimers now))"
proof -
  have "length (timers_of (foldl timer_step store ops) d' s') \<le> 1"
    if "distinct (map fst store)"
    unfolding timers_of_def length_map
    using that by (intro distinct_at_most_one distinct_timer_steps)
  moreover have "distinct (map fst (active_timers (foldl timer_step store ops) d'))"
    if "distinct (map fst store)"
    using that by (intro distinct_active_timers distinct_timer_steps)
  ultimately show ?thesis
    using timers_of_arm [of store now d s dur] timers_of_arm_other [of d' s' d s store now dur]
      active_timers_arm [of store now d s dur] distinct_updateTimers [of activeTimers now]
    by simp
qed

theorem one_timer_per_switch_witness:
  "distinct (map fst [((1::nat, ''POWER1''), 5000::int)])
   \<and> length (timers_of
        (foldl timer_step [((1, ''POWER1''), 5000)]
           [Arm 0 1 ''POWER1'' 60000, Arm 10 1 ''POWER2'' 100, Arm 20 1 ''POWER1'' 500])
        1 ''POWER1'') \<le> 1
   \<and> timers_of
        (foldl timer_step [((1, ''POWER1''), 5000)]
           [Arm 0 1 ''POWER1'' 60000, Arm 10 1 ''POWER2'' 100, Arm 20 1 ''POWER1'' 500])
        1 ''POWER1'' = [520]
   \<and> timers_of (arm [((1, ''POWER1''), 5000)] 0 1 ''POWER2'' 100) 1 ''POWER1'' = [5000]"
  using one_timer_per_switch [of "[((1, ''POWER1''), 5000)]"
      "[Arm 0 1 ''POWER1'' 60000, Arm 10 1 ''POWER2'' 100, Arm 20 1 ''POWER1'' 500]"
      1 "''POWER1''" 0 1 "''POWER2''" 100 "[]"]
  by (simp add: timers_of_def arm_def cancel_def)

section \<open>Properties of the topic matcher\<close>

lemma match_tokens_positionwise: "match_tokens ps ts = matches_positionwise ps ts"
proof (induction ps ts rule: match_tokens.induct)
  case 1
  show ?case by (simp add: matches_positionwise_def)
next
  case (2 t ts)
  show ?case by (simp add: matches_positionwise_def)
next
  case (3 p ps ts)
  show ?case
  proof (cases "p = ''#''")
    case True
    then show ?thesis
      by (cases ts; cases ps) (auto simp: matches_positionwise_def token_ok_def)
  next
    case False
    show ?thesis
    proof (cases ts)
      case Nil
      with False show ?thesis
        by (auto simp: matches_positionwise_def)
    next
      case (Cons t ts')
      with False 3 have IH: "match_tokens ps ts' = matches_positionwise ps ts'"
        by simp
      show ?thesis
      proof (cases "ps = []")
        case True
        with False Cons show ?thesis
          by (cases ts') (auto simp: matches_positionwise_def token_ok_def)
      next
        case ne: False
        then obtain q qs where ps: "ps = q # qs"
          by (cases ps) auto
        from False Cons IH show ?thesis
          unfolding ps by (auto simp: matches_positionwise_def token_ok_def)
      qed
    qed
  qed
qed

text \<open>
  C4. The topic matcher accepts exactly when the tokens agree position by position, where
  \<open>+\<close> stands for exactly one token and \<open>#\<close>, valid only as the final pattern
  token, for zero or more trailing tokens; otherwise pattern and topic must have the same
  number of tokens. So \<open>a/+/c\<close> matches \<open>a/b/c\<close>, \<open>a/#\<close> matches
  \<open>a/b/c/d\<close> and \<open>a\<close>, and \<open>a/+/c\<close> does not match \<open>a/b/x/c\<close>.
\<close>

theorem matches_contract:
  "matches pattern topic
     = matches_positionwise (split_on CHR ''/'' pattern) (split_on CHR ''/'' topic)
   \<and> matches ''a/+/c'' ''a/b/c''
   \<and> matches ''a/#'' ''a/b/c/d''
   \<and> matches ''a/#'' ''a''
   \<and> \<not> matches ''a/+/c'' ''a/b/x/c''
   \<and> \<not> matches ''a/#/c'' ''a/b/c''"
  by (simp add: matches_def match_tokens_positionwise [symmetric])

theorem matches_contract_witness:
  "matches ''a/+/c'' ''a/b/c''
   \<and> matches_positionwise [''a'', ''+'', ''c''] [''a'', ''b'', ''c'']
   \<and> \<not> matches_positionwise [''a'', ''+'', ''c''] [''a'', ''b'', ''x'', ''c'']"
  using matches_contract [of "''a/+/c''" "''a/b/c''"]
  by (simp add: matches_positionwise_def token_ok_def)

section \<open>Properties of sustained triggers\<close>

lemma sustain_run_append:
  "sustain_run m st (a @ b)
     = (let (s1, f1) = sustain_run m st a; (s2, f2) = sustain_run m s1 b in (s2, f1 @ f2))"
  by (induction a arbitrary: st) (auto simp: Let_def split: prod.splits)

lemma pending_stays:
  "0 < m \<Longrightarrow> \<forall>t\<in>set ts. t < since + m * 60 \<Longrightarrow>
   sustain_run m (PendingSustain since) (all_true ts) = (PendingSustain since, [])"
  by (induction ts) (auto simp: all_true_def)

lemma fired_stays: "sustain_run m Fired (all_true ts) = (Fired, [])"
  by (induction ts) (auto simp: all_true_def)

lemma interrupted_no_fire:
  assumes "\<forall>t\<in>set ts1. t \<le> t0 + 180" and "\<forall>t\<in>set ts2. t < t0 + 540"
  shows "sustain_run 5 Unmet
           ((t0, True) # all_true ts1 @ [(t0 + 180, False), (t0 + 240, True)] @ all_true ts2)
         = (PendingSustain (t0 + 240), [])"
proof -
  have a: "sustain_run 5 (PendingSustain t0) (all_true ts1) = (PendingSustain t0, [])"
    using assms(1) by (intro pending_stays) auto
  have b: "sustain_run 5 (PendingSustain (t0 + 240)) (all_true ts2)
      = (PendingSustain (t0 + 240), [])"
    using assms(2) by (intro pending_stays) auto
  show ?thesis
    by (simp add: sustain_run_append a b)
qed

lemma sustained_fires_once:
  assumes "\<forall>t\<in>set ts1. t < t0 + 300" and "t0 + 300 \<le> t"
  shows "sustain_run 5 Unmet
           ((t0, True) # all_true ts1 @ [(t, True)] @ all_true ts2)
         = (Fired, [t])"
proof -
  have a: "sustain_run 5 (PendingSustain t0) (all_true ts1) = (PendingSustain t0, [])"
    using assms(1) by (intro pending_stays) auto
  from assms(2) have b: "300 \<le> t - t0"
    by arith
  show ?thesis
    by (simp add: sustain_run_append a b fired_stays)
qed

text \<open>
  C3. A DeviceStateTrigger rule with \<open>sustain_minutes = 5\<close>, times in seconds. If the
  condition becomes true at \<open>t0\<close>, false at \<open>t0 + 3 min\<close> and true again at
  \<open>t0 + 4 min\<close>, the rule does not fire, however often it is evaluated meanwhile and
  up to five minutes after the second rise. If the condition is true at every evaluation
  from \<open>t0\<close> to \<open>t0 + 5 min\<close>, the rule fires exactly once, at \<open>t0 + 5 min\<close>,
  and not again while the condition stays true. In general it fires exactly once, at the
  first evaluation that is five minutes or more after \<open>t0\<close>.
\<close>

theorem sustain_five_minutes:
  "((\<forall>t\<in>set ts1. t \<le> t0 + 180) \<and> (\<forall>t\<in>set ts2. t < t0 + 540) \<longrightarrow>
      snd (sustain_run 5 Unmet
             ((t0, True) # all_true ts1 @ [(t0 + 180, False), (t0 + 240, True)] @ all_true ts2))
        = [])
   \<and> ((\<forall>t\<in>set ts3. t < t0 + 300) \<longrightarrow>
        sustain_run 5 Unmet ((t0, True) # all_true ts3 @ [(t0 + 300, True)] @ all_true ts4)
          = (Fired, [t0 + 300]))
   \<and> ((\<forall>t\<in>set ts3. t < t0 + 300) \<and> t0 + 300 \<le> t \<longrightarrow>
        sustain_run 5 Unmet ((t0, True) # all_true ts3 @ [(t, True)] @ all_true ts4)
          = (Fired, [t]))"
  using interrupted_no_fire [of ts1 t0 ts2] sustained_fires_once [of ts3 t0 "t0 + 300" ts4]
    sustained_fires_once [of ts3 t0 t ts4]
  by simp

theorem sustain_five_minutes_witness:
  "snd (sustain_run 5 Unmet
        [(1000, True), (1060, True), (1120, True), (1180, False), (1240, True), (1300, True)])
      = []
   \<and> sustain_run 5 Unmet
        [(1000, True), (1060, True), (1240, True), (1300, True), (1360, True), (2000, True)]
      = (Fired, [1300])
   \<and> sustain_run 5 Unmet
        [(1000, True), (1060, True), (1240, True), (1310, True), (1360, True), (2000, True)]
      = (Fired, [1310])"
  using sustain_five_minutes
    [of "[1060, 1120]" 1000 "[1300]" "[1060, 1240]" "[1360, 2000]" 1310]
  by (simp add: all_true_def)

section \<open>Properties of interval schedules\<close>

lemma interval_run_append:
  "interval_run sch l (ts @ us)
     = interval_run sch l ts
       @ interval_run sch (foldl (\<lambda>l t. fst (interval_tick sch l t)) l ts) us"
  by (induction ts arbitrary: l) (auto simp: Let_def split: prod.splits)

lemma div_step:
  assumes "0 < (iv::nat)"
  shows "(j div iv \<noteq> Suc j div iv) = (Suc j mod iv = 0)"
  by (simp add: div_Suc)

lemma interval_tick_at:
  assumes "0 < interval_seconds sch"
  shows "interval_tick sch (last_after sch k) k
     = (last_after sch (Suc k),
        k mod interval_seconds sch = 0 \<and> (total_duration sch = 0 \<or> k \<le> total_duration sch))"
proof (cases k)
  case 0
  with assms show ?thesis
    by (simp add: interval_tick_def last_after_def)
next
  case (Suc j)
  show ?thesis
  proof (cases "total_duration sch \<noteq> 0 \<and> k > total_duration sch")
    case True
    then have "min j (total_duration sch) = total_duration sch"
      and "min k (total_duration sch) = total_duration sch"
      using Suc by auto
    with assms Suc True show ?thesis
      by (simp add: interval_tick_def last_after_def)
  next
    case False
    then have m: "min j (total_duration sch) = j" if "total_duration sch \<noteq> 0"
      using that Suc by auto
    from False have m': "min k (total_duration sch) = k" if "total_duration sch \<noteq> 0"
      using that by auto
    show ?thesis
      using assms Suc False m m' div_step [OF assms, of j]
      by (auto simp: interval_tick_def last_after_def Let_def)
  qed
qed

lemma interval_state_upt:
  assumes "0 < interval_seconds sch"
  shows "foldl (\<lambda>l t. fst (interval_tick sch l t)) None [0..<k] = last_after sch k"
proof (induction k)
  case 0
  show ?case by (simp add: last_after_def)
next
  case (Suc k)
  then show ?case
    using interval_tick_at [OF assms, of k] by simp
qed

lemma interval_run_upt:
  assumes "0 < interval_seconds sch"
  shows "interval_run sch None [0..<k]
     = filter (\<lambda>t. t mod interval_seconds sch = 0
                  \<and> (total_duration sch = 0 \<or> t \<le> total_duration sch)) [0..<k]"
proof (induction k)
  case 0
  show ?case by simp
next
  case (Suc k)
  have "interval_run sch None [0..<Suc k]
      = interval_run sch None [0..<k] @ interval_run sch (last_after sch k) [k]"
    using interval_run_append [of sch None "[0..<k]" "[k]"] interval_state_upt [OF assms, of k]
    by simp
  then show ?case
    using Suc interval_tick_at [OF assms, of k] by simp
qed

lemma multiples_upto:
  assumes iv: "0 < (iv::nat)" and bT: "b \<le> T"
  shows "filter (\<lambda>t. t mod iv = 0 \<and> t \<le> b) [0..<Suc T] = map (\<lambda>i. i * iv) [0..<Suc (b div iv)]"
proof (rule sorted_distinct_set_unique)
  show "sorted (filter (\<lambda>t. t mod iv = 0 \<and> t \<le> b) [0..<Suc T])"
    by (simp add: sorted_wrt_filter del: upt_Suc)
  show "distinct (filter (\<lambda>t. t mod iv = 0 \<and> t \<le> b) [0..<Suc T])"
    by (simp del: upt_Suc)
  have "sorted_wrt (\<lambda>i j. i * iv \<le> j * iv) [0..<Suc (b div iv)]"
    by (rule sorted_wrt_mono_rel [of _ "(\<le>)"]) (simp_all del: upt_Suc)
  then show "sorted (map (\<lambda>i. i * iv) [0..<Suc (b div iv)])"
    by (simp add: sorted_map del: upt_Suc)
  have "inj_on (\<lambda>i. i * iv) (set [0..<Suc (b div iv)])"
    using iv by (auto simp: inj_on_def)
  then show "distinct (map (\<lambda>i. i * iv) [0..<Suc (b div iv)])"
    by (simp add: distinct_map del: upt_Suc)
  show "set (filter (\<lambda>t. t mod iv = 0 \<and> t \<le> b) [0..<Suc T])
      = set (map (\<lambda>i. i * iv) [0..<Suc (b div iv)])"
  proof (intro set_eqI iffI)
    fix t
    assume "t \<in> set (filter (\<lambda>t. t mod iv = 0 \<and> t \<le> b) [0..<Suc T])"
    then have m: "t mod iv = 0" and le: "t \<le> b"
      by (simp_all del: upt_Suc)
    from m have "t = (t div iv) * iv"
      by auto
    moreover from le have "t div iv \<le> b div iv"
      by (rule div_le_mono)
    ultimately show "t \<in> set (map (\<lambda>i. i * iv) [0..<Suc (b div iv)])"
      by (auto simp del: upt_Suc intro!: image_eqI [of _ _ "t div iv"])
  next
    fix t
    assume "t \<in> set (map (\<lambda>i. i * iv) [0..<Suc (b div iv)])"
    then have "t \<in> (\<lambda>i. i * iv) ` {0..<Suc (b div iv)}"
      by (simp del: upt_Suc)
    then obtain i where i': "i \<in> {0..<Suc (b div iv)}" and t: "t = i * iv"
      by (rule imageE)
    from i' have i: "i \<le> b div iv"
      by simp
    from i have "i * iv \<le> (b div iv) * iv"
      by simp
    also have "\<dots> \<le> b"
      by simp
    finally have "t \<le> b"
      by (simp add: t)
    with bT t show "t \<in> set (filter (\<lambda>t. t mod iv = 0 \<and> t \<le> b) [0..<Suc T])"
      by (simp del: upt_Suc)
  qed
qed

lemma interval_run_bounded:
  assumes iv: "0 < interval_seconds sch"
    and total: "0 < total_duration sch" "total_duration sch \<le> T"
  shows "interval_run sch None [0..<Suc T]
     = map (\<lambda>i. i * interval_seconds sch)
         [0..<Suc (total_duration sch div interval_seconds sch)]"
proof -
  have "interval_run sch None [0..<Suc T]
      = filter (\<lambda>t. t mod interval_seconds sch = 0 \<and> t \<le> total_duration sch) [0..<Suc T]"
    using interval_run_upt [OF iv, of "Suc T"] total(1) by (simp del: upt_Suc)
  then show ?thesis
    using multiples_upto [OF iv total(2)] by simp
qed

lemma ten_for_thirty_fires:
  assumes "30 \<le> T"
  shows "interval_run ten_for_thirty None [0..<Suc T] = [0, 10, 20, 30]"
proof -
  have iv: "interval_seconds ten_for_thirty = 10" and td: "total_duration ten_for_thirty = 30"
    by (simp_all add: ten_for_thirty_def interval_seconds_def total_duration_def)
  have "[0..<Suc (30 div 10)] = [0, 1, 2, 3::nat]"
    by code_simp
  then show ?thesis
    using interval_run_bounded [of ten_for_thirty T] assms by (simp add: iv td del: upt_Suc)
qed

text \<open>
  The example of the form's help text, "Run every 10 seconds for 5 minutes = 30 runs":
  with the run at the end of the total duration included, as in the spec's example, these
  are 31 runs.
\<close>

lemma ten_seconds_for_five_minutes:
  assumes "300 \<le> T"
  shows "length (interval_run
           \<lparr>interval_value = 10, interval_unit = Seconds,
             total_duration_value = 5, total_duration_unit = Minutes\<rparr> None [0..<Suc T]) = 31"
  using interval_run_bounded
    [of "\<lparr>interval_value = 10, interval_unit = Seconds,
          total_duration_value = 5, total_duration_unit = Minutes\<rparr>" T] assms
  by (simp add: interval_seconds_def total_duration_def del: upt_Suc)

text \<open>
  C5. With one tick per second from local midnight, an interval schedule fires exactly
  at the ticks \<open>t\<close> that enter a new run index \<open>floor(t / interval_seconds)\<close>, that is
  the multiples of the interval, as long as no more than the total duration (0 =
  unbounded) has elapsed: with a total duration these are the
  \<open>floor(total / interval) + 1\<close> runs at \<open>0, interval, 2 * interval, ...\<close>. With an
  interval of 10 seconds and a total duration of 30 seconds it fires at 0, 10, 20 and 30
  seconds, four runs, and never after.
\<close>

theorem interval_schedule_fires:
  "(0 < interval_seconds sch \<longrightarrow>
      interval_run sch None [0..<n]
        = filter (\<lambda>t. t mod interval_seconds sch = 0
                     \<and> (total_duration sch = 0 \<or> t \<le> total_duration sch)) [0..<n])
   \<and> (0 < interval_seconds sch \<and> 0 < total_duration sch \<and> total_duration sch \<le> T \<longrightarrow>
        interval_run sch None [0..<Suc T]
          = map (\<lambda>i. i * interval_seconds sch)
              [0..<Suc (total_duration sch div interval_seconds sch)])
   \<and> (30 \<le> T \<longrightarrow> interval_run ten_for_thirty None [0..<Suc T] = [0, 10, 20, 30])"
  using interval_run_upt [of sch n] interval_run_bounded [of sch T] ten_for_thirty_fires [of T]
  by blast

theorem interval_schedule_fires_witness:
  "0 < interval_seconds ten_for_thirty \<and> 0 < total_duration ten_for_thirty
   \<and> total_duration ten_for_thirty \<le> 45
   \<and> interval_run ten_for_thirty None [0..<Suc 45] = [0, 10, 20, 30]
   \<and> interval_run ten_for_thirty None [0..<25] = [0, 10, 20]"
proof -
  have iv: "interval_seconds ten_for_thirty = 10" and td: "total_duration ten_for_thirty = 30"
    by (simp_all add: ten_for_thirty_def interval_seconds_def total_duration_def)
  have "filter (\<lambda>t. t mod 10 = 0 \<and> t \<le> (30::nat)) [0..<25] = [0, 10, 20]"
    and "map (\<lambda>i. i * 10) [0..<4] = [0, 10, 20, 30::nat]"
    by code_simp+
  then show ?thesis
    using interval_schedule_fires [of ten_for_thirty 25 45] by (simp add: iv td)
qed

end
